theory Spec2Isabelle
  imports Main
begin

section \<open>Data model of the wallet\<close>

text \<open>
  The wallet of \<^verbatim>\<open>sia/wallet/wallet.go\<close>. The file holds the \<^verbatim>\<open>Wallet\<close> struct,
  \<^verbatim>\<open>New\<close>, \<^verbatim>\<open>WalletInfo\<close> and \<^verbatim>\<open>SpendCoins\<close>. The types of package
  \<^verbatim>\<open>consensus\<close>, the types \<^verbatim>\<open>spendableAddress\<close> and \<^verbatim>\<open>openTransaction\<close>, and
  the builder methods that \<^verbatim>\<open>SpendCoins\<close> calls are declared in files that are not at
  hand; each of them is modelled from the specification and marked so.

  Hashes (coin addresses, output ids, keys) are opaque values, taken as numbers.
  The wallet's mutex serialises its public operations, so each operation is one
  atomic function from wallet to wallet.
\<close>

text \<open>
  Modelled from the spec: the declaration of \<^verbatim>\<open>consensus.Currency\<close> is missing. Values
  are never negative (data model, invariant 2), and \<^verbatim>\<open>api/wallet.go\<close> builds a
  currency from an arbitrary-precision integer, so it is a natural number.
\<close>

type_synonym Currency = nat
type_synonym CoinAddress = nat
type_synonym OutputID = nat
type_synonym BlockHeight = nat
type_synonym SecretKey = nat
type_synonym Signature = nat

text \<open>The error taxonomy of the specification (section 7).\<close>

datatype error =
    InsufficientFunds
  | UnknownTransaction
  | InvalidTransactionState
  | SignatureConditionMismatch
  | LedgerRejected string
  | PersistenceFailure
  | DuplicateAddress

text \<open>\<^verbatim>\<open>consensus.Output\<close>, with the two fields that \<^verbatim>\<open>SpendCoins\<close> fills in.\<close>

record Output =
  Value :: Currency
  SpendHash :: CoinAddress

text \<open>
  Modelled from the spec: a spend condition is the public key(s) and an optional
  unlock height; an address whose condition carries an unlock height is time-locked.
\<close>

record SpendConditions =
  PublicKeys :: "nat list"
  TimeLock :: "BlockHeight option"

text \<open>
  Modelled from the spec: an input references the reserved output and carries a
  signature, a placeholder (\<open>0\<close>) until the transaction is signed.
\<close>

record Input =
  InputID :: OutputID
  InputConditions :: SpendConditions
  InputSignature :: Signature

text \<open>Modelled from the spec: a transaction is its inputs, its miner fees and its outputs.\<close>

record Transaction =
  Inputs :: "Input list"
  MinerFees :: "Currency list"
  Outputs :: "Output list"

text \<open>The zero value of \<^verbatim>\<open>consensus.Transaction\<close>: what a named Go result holds at entry.\<close>

definition zeroTransaction :: Transaction where
  "zeroTransaction = \<lparr>Inputs = [], MinerFees = [], Outputs = []\<rparr>"

text \<open>
  Modelled from the spec: an output believed to belong to an address, tagged with
  the generation at which it was last provisionally spent (the output's own spent
  counter of the comment on \<^verbatim>\<open>Wallet\<close>) and with its confirmation status on the ledger.
\<close>

record spendableOutput =
  outputID :: OutputID
  outputValue :: Currency
  generation :: int
  confirmed :: bool

text \<open>Modelled from the spec: a spendable address owns its key and its outputs.\<close>

record spendableAddress =
  spendConditions :: SpendConditions
  secretKey :: SecretKey
  spendableOutputs :: "spendableOutput list"

text \<open>
  Modelled from the spec: the states of the builder's state machine and an open
  transaction (draft, reserved outputs with their owning address).
\<close>

datatype txState = Empty | Funded | Signed | Aborted

record openTransaction =
  transaction :: Transaction
  reservedOutputs :: "(CoinAddress \<times> spendableOutput) list"
  txState :: txState

text \<open>
  The \<^verbatim>\<open>Wallet\<close> struct. \<^verbatim>\<open>addresses\<close> is a Go map; its iteration order is fixed here
  by an association list (the specification asks for an order that is deterministic
  for a fixed state). \<^verbatim>\<open>timelockedAddresses\<close> indexes address objects by unlock
  height; the pointers are coin addresses here. \<^verbatim>\<open>transactions\<close> is keyed by strings.
  The two counters are Go \<^verbatim>\<open>int\<close>s that only ever count up from small values; they
  are integers here, without the wrap-around that \<open>2\<^sup>6\<^sup>3\<close> increments would reach.
  The pointer \<^verbatim>\<open>state\<close> to the consensus set is not part of the record: what the
  wallet asks of it (the current height, \<^verbatim>\<open>AcceptTransaction\<close>) is passed to each operation.
\<close>

record Wallet =
  prevHeight :: BlockHeight
  saveFilename :: string
  spentCounter :: int
  addresses :: "(CoinAddress \<times> spendableAddress) list"
  timelockedAddresses :: "(BlockHeight \<times> CoinAddress list) list"
  transactionCounter :: int
  transactions :: "string \<rightharpoonup> openTransaction"

section \<open>Address book\<close>

text \<open>Every output the wallet believes it owns, with its owning address, in iteration order.\<close>

definition allOutputs :: "Wallet \<Rightarrow> (CoinAddress \<times> spendableOutput) list" where
  "allOutputs w =
     concat (map (\<lambda>(a, sa). map (Pair a) (spendableOutputs sa)) (addresses w))"

definition mapOutputs :: "(spendableOutput \<Rightarrow> spendableOutput) \<Rightarrow> Wallet \<Rightarrow> Wallet" where
  "mapOutputs f w =
     w\<lparr>addresses :=
         map (\<lambda>(a, sa). (a, sa\<lparr>spendableOutputs := map f (spendableOutputs sa)\<rparr>)) (addresses w)\<rparr>"

definition filterOutputs :: "(spendableOutput \<Rightarrow> bool) \<Rightarrow> Wallet \<Rightarrow> Wallet" where
  "filterOutputs P w =
     w\<lparr>addresses :=
         map (\<lambda>(a, sa). (a, sa\<lparr>spendableOutputs := filter P (spendableOutputs sa)\<rparr>)) (addresses w)\<rparr>"

text \<open>
  Modelled from the spec: an output is tentatively spent iff its stored generation
  equals the wallet's current generation.
\<close>

definition tentativelySpent :: "Wallet \<Rightarrow> spendableOutput \<Rightarrow> bool" where
  "tentativelySpent w out = (generation out = spentCounter w)"

text \<open>
  Modelled from the spec: \<^verbatim>\<open>markProvisionallySpent(outputID)\<close> sets the output's
  generation to the wallet's current generation.
\<close>

definition markProvisionallySpent :: "Wallet \<Rightarrow> OutputID \<Rightarrow> Wallet" where
  "markProvisionallySpent w x =
     mapOutputs (\<lambda>out. if outputID out = x then out\<lparr>generation := spentCounter w\<rparr> else out) w"

text \<open>Modelled from the spec: \<^verbatim>\<open>resetGeneration()\<close> increments the wallet-wide counter.\<close>

definition resetGeneration :: "Wallet \<Rightarrow> Wallet" where
  "resetGeneration w = w\<lparr>spentCounter := spentCounter w + 1\<rparr>"

definition unlockedAt :: "BlockHeight \<Rightarrow> spendableAddress \<Rightarrow> bool" where
  "unlockedAt h sa =
     (case TimeLock (spendConditions sa) of None \<Rightarrow> True | Some u \<Rightarrow> u \<le> h)"

text \<open>
  Modelled from the spec: \<^verbatim>\<open>unspentOutputs(currentHeight)\<close> yields the pairs of
  address and output whose generation is strictly below the current generation and
  whose address is not time-locked or has reached its unlock height.
\<close>

definition unspentOutputs :: "BlockHeight \<Rightarrow> Wallet \<Rightarrow> (CoinAddress \<times> spendableOutput) list" where
  "unspentOutputs h w =
     concat (map (\<lambda>(a, sa).
        if unlockedAt h sa
        then map (Pair a) (filter (\<lambda>out. generation out < spentCounter w) (spendableOutputs sa))
        else []) (addresses w))"

text \<open>
  Modelled from the spec: the balance sums the unspent outputs; the confirmed
  balance only those the ledger has confirmed, the full balance all of them. The
  current height is read from the consensus set.
\<close>

definition Balance :: "BlockHeight \<Rightarrow> Wallet \<Rightarrow> bool \<Rightarrow> Currency" where
  "Balance h w full =
     sum_list (map (outputValue \<circ> snd)
       (filter (\<lambda>(a, out). full \<or> confirmed out) (unspentOutputs h w)))"

record WalletInfo =
  InfoBalance :: Currency
  InfoFullBalance :: Currency
  InfoNumAddresses :: nat

definition WalletInfo :: "BlockHeight \<Rightarrow> Wallet \<Rightarrow> WalletInfo" where
  "WalletInfo h w =
     \<lparr>InfoBalance = Balance h w False,
      InfoFullBalance = Balance h w True,
      InfoNumAddresses = length (addresses w)\<rparr>"

section \<open>Selection\<close>

text \<open>
  Modelled from the spec: the selector walks the unspent outputs in iteration order
  and consumes them greedily until the total meets the target, marking each consumed
  output at once.
\<close>

fun selectLoop ::
  "Currency \<Rightarrow> (CoinAddress \<times> spendableOutput) list \<Rightarrow> Wallet \<Rightarrow>
   (CoinAddress \<times> spendableOutput) list \<Rightarrow> Currency \<Rightarrow>
   Wallet \<times> (CoinAddress \<times> spendableOutput) list \<times> Currency" where
  "selectLoop target [] w sel tot = (w, sel, tot)"
| "selectLoop target (c # cs) w sel tot =
     (if target \<le> tot then (w, sel, tot)
      else selectLoop target cs (markProvisionallySpent w (outputID (snd c)))
             (sel @ [c]) (tot + outputValue (snd c)))"

text \<open>
  Modelled from the spec: when the outputs run out short of the target the selection
  fails and every mark of this call is rolled back: the wallet is the one it started from.
\<close>

definition selectOutputs ::
  "Currency \<Rightarrow> BlockHeight \<Rightarrow> Wallet \<Rightarrow>
   error + (Wallet \<times> (CoinAddress \<times> spendableOutput) list \<times> Currency)" where
  "selectOutputs target h w =
     (case selectLoop target (unspentOutputs h w) w [] 0 of
        (w', sel, tot) \<Rightarrow>
          if target \<le> tot then Inr (w', sel, tot) else Inl InsufficientFunds)"

section \<open>Transaction builder\<close>

text \<open>
  Modelled from the spec: ids come from a counter that only increases, and the
  registry of the \<^verbatim>\<open>Wallet\<close> struct is keyed by strings: the id is the decimal numeral
  of the counter.
\<close>

definition digitChar :: "nat \<Rightarrow> char" where
  "digitChar d = char_of (48 + d)"

function digits :: "nat \<Rightarrow> string" where
  "digits n = (if n < 10 then [digitChar n] else digits (n div 10) @ [digitChar (n mod 10)])"
  by pat_completeness auto
termination
  by (relation "measure id") auto

declare digits.simps [simp del]

definition Itoa :: "int \<Rightarrow> string" where
  "Itoa i = (if i < 0 then CHR ''-'' # digits (nat (- i)) else digits (nat i))"

text \<open>
  Modelled from the spec: \<^verbatim>\<open>register\<close> allocates a fresh id from the counter, creates
  an \<open>Empty\<close> open transaction and stores it under the id. The first id of a new wallet is
  1 (end-to-end scenario of the specification), so the counter is advanced first. The
  call in \<^verbatim>\<open>SpendCoins\<close> hands over a transaction, which becomes the draft, and reads
  back an error, which is never set.
\<close>

definition RegisterTransaction :: "Wallet \<Rightarrow> Transaction \<Rightarrow> string \<times> error option \<times> Wallet" where
  "RegisterTransaction w t =
     (let c = transactionCounter w + 1;
          tid = Itoa c
      in (tid, None,
          w\<lparr>transactionCounter := c,
            transactions := (transactions w)
              (tid \<mapsto> \<lparr>transaction = t, reservedOutputs = [], txState = Empty\<rparr>)\<rparr>))"

definition newInput :: "Wallet \<Rightarrow> CoinAddress \<times> spendableOutput \<Rightarrow> Input" where
  "newInput w c =
     \<lparr>InputID = outputID (snd c),
      InputConditions =
        (case map_of (addresses w) (fst c) of
           Some sa \<Rightarrow> spendConditions sa
         | None \<Rightarrow> \<lparr>PublicKeys = [], TimeLock = None\<rparr>),
      InputSignature = 0\<rparr>"

text \<open>
  Modelled from the spec: \<^verbatim>\<open>fund\<close> requires state \<open>Empty\<close> or \<open>Funded\<close>, runs the
  selection, and on success appends an input with a placeholder signature for each
  reserved output and moves to \<open>Funded\<close>; when the selection fails it leaves the state
  unchanged and surfaces the error.
\<close>

definition FundTransaction ::
  "BlockHeight \<Rightarrow> Wallet \<Rightarrow> string \<Rightarrow> Currency \<Rightarrow> error option \<times> Wallet" where
  "FundTransaction h w tid amount =
     (case transactions w tid of
        None \<Rightarrow> (Some UnknownTransaction, w)
      | Some ot \<Rightarrow>
          if txState ot \<noteq> Empty \<and> txState ot \<noteq> Funded then (Some InvalidTransactionState, w)
          else (case selectOutputs amount h w of
                  Inl e \<Rightarrow> (Some e, w)
                | Inr (w', sel, tot) \<Rightarrow>
                    (None,
                     w'\<lparr>transactions := (transactions w')
                        (tid \<mapsto> ot\<lparr>transaction :=
                                    (transaction ot)\<lparr>Inputs :=
                                       Inputs (transaction ot) @ map (newInput w) sel\<rparr>,
                                  reservedOutputs := reservedOutputs ot @ sel,
                                  txState := Funded\<rparr>)\<rparr>)))"

text \<open>
  Modelled from the spec: \<^verbatim>\<open>addOutput\<close> requires state \<open>Funded\<close> and appends an output
  to the draft, with no balancing check.
\<close>

definition AddOutput :: "Wallet \<Rightarrow> string \<Rightarrow> Output \<Rightarrow> error option \<times> Wallet" where
  "AddOutput w tid out =
     (case transactions w tid of
        None \<Rightarrow> (Some UnknownTransaction, w)
      | Some ot \<Rightarrow>
          if txState ot \<noteq> Funded then (Some InvalidTransactionState, w)
          else (None,
                w\<lparr>transactions := (transactions w)
                   (tid \<mapsto> ot\<lparr>transaction :=
                               (transaction ot)\<lparr>Outputs := Outputs (transaction ot) @ [out]\<rparr>\<rparr>)\<rparr>))"

text \<open>
  Modelled from the spec: \<^verbatim>\<open>addMinerFee\<close> requires state \<open>Funded\<close> and appends a fee
  to the draft.
\<close>

definition AddMinerFee :: "Wallet \<Rightarrow> string \<Rightarrow> Currency \<Rightarrow> error option \<times> Wallet" where
  "AddMinerFee w tid fee =
     (case transactions w tid of
        None \<Rightarrow> (Some UnknownTransaction, w)
      | Some ot \<Rightarrow>
          if txState ot \<noteq> Funded then (Some InvalidTransactionState, w)
          else (None,
                w\<lparr>transactions := (transactions w)
                   (tid \<mapsto> ot\<lparr>transaction :=
                               (transaction ot)\<lparr>MinerFees := MinerFees (transaction ot) @ [fee]\<rparr>\<rparr>)\<rparr>))"

text \<open>
  Modelled from the spec: the signer is a function of the draft, the input index,
  the spend condition and the secret key, and fails with
  \<open>SignatureConditionMismatch\<close> when it lacks key material. It stands for the
  cryptography and is a parameter.
\<close>

type_synonym signer =
  "Transaction \<Rightarrow> nat \<Rightarrow> SpendConditions \<Rightarrow> SecretKey \<Rightarrow> error + Signature"

fun inputIndex :: "OutputID \<Rightarrow> Input list \<Rightarrow> nat option" where
  "inputIndex x [] = None"
| "inputIndex x (i # is) =
     (if InputID i = x then Some 0 else map_option Suc (inputIndex x is))"

text \<open>
  Modelled from the spec: each reserved input is signed with the key material of the
  address that owns the reserved output; the first failure is surfaced.
\<close>

fun signReserved ::
  "signer \<Rightarrow> Transaction \<Rightarrow> (CoinAddress \<times> spendableAddress) list \<Rightarrow>
   (CoinAddress \<times> spendableOutput) list \<Rightarrow> Transaction \<Rightarrow> error + Transaction" where
  "signReserved sg draft addrs [] t = Inr t"
| "signReserved sg draft addrs (c # cs) t =
     (case map_of addrs (fst c) of
        None \<Rightarrow> Inl SignatureConditionMismatch
      | Some sa \<Rightarrow>
          (case inputIndex (outputID (snd c)) (Inputs draft) of
             None \<Rightarrow> Inl SignatureConditionMismatch
           | Some i \<Rightarrow>
               (case sg draft i (spendConditions sa) (secretKey sa) of
                  Inl e \<Rightarrow> Inl e
                | Inr s \<Rightarrow>
                    signReserved sg draft addrs cs
                      (t\<lparr>Inputs := (Inputs t)[i := (Inputs t ! i)\<lparr>InputSignature := s\<rparr>]\<rparr>))))"

text \<open>
  Modelled from the spec: \<^verbatim>\<open>sign\<close> requires state \<open>Funded\<close>. When every reserved
  input is signed and \<^verbatim>\<open>finalize\<close> is set, the open transaction leaves the registry
  and its reservations become permanent: the outputs are spent whatever the generation
  says, so the address book drops them. Without \<^verbatim>\<open>finalize\<close> the draft stays
  registered and the reservations stay held. A signing failure changes nothing.
\<close>

definition SignTransaction ::
  "signer \<Rightarrow> Wallet \<Rightarrow> string \<Rightarrow> bool \<Rightarrow> Transaction \<times> error option \<times> Wallet" where
  "SignTransaction sg w tid finalize =
     (case transactions w tid of
        None \<Rightarrow> (zeroTransaction, Some UnknownTransaction, w)
      | Some ot \<Rightarrow>
          if txState ot \<noteq> Funded then (zeroTransaction, Some InvalidTransactionState, w)
          else (case signReserved sg (transaction ot) (addresses w) (reservedOutputs ot)
                       (transaction ot) of
                  Inl e \<Rightarrow> (zeroTransaction, Some e, w)
                | Inr t \<Rightarrow>
                    if finalize
                    then (t, None,
                          (filterOutputs
                             (\<lambda>out. outputID out \<notin> set (map (outputID \<circ> snd) (reservedOutputs ot))) w)
                            \<lparr>transactions := (transactions w)(tid := None)\<rparr>)
                    else (t, None, w)))"

text \<open>
  Modelled from the spec: \<^verbatim>\<open>abort\<close> releases the reserved outputs, clearing their
  generation markings, and removes the open transaction.
\<close>

definition AbortTransaction :: "Wallet \<Rightarrow> string \<Rightarrow> error option \<times> Wallet" where
  "AbortTransaction w tid =
     (case transactions w tid of
        None \<Rightarrow> (Some UnknownTransaction, w)
      | Some ot \<Rightarrow>
          (None,
           (mapOutputs
              (\<lambda>out. if outputID out \<in> set (map (outputID \<circ> snd) (reservedOutputs ot))
                      then out\<lparr>generation := 0\<rparr> else out) w)
             \<lparr>transactions := (transactions w)(tid := None)\<rparr>))"

section \<open>The wallet's own operations\<close>

text \<open>
  \<^verbatim>\<open>New\<close>: the struct literal, then \<^verbatim>\<open>Load\<close>. \<^verbatim>\<open>transactionCounter\<close> and
  \<^verbatim>\<open>prevHeight\<close> keep Go's zero value. \<^verbatim>\<open>Load\<close> is declared in a file that is not at
  hand and is a parameter: it works on the wallet in place and returns its error, and
  \<^verbatim>\<open>New\<close> returns the wallet together with that error.
\<close>

definition newWallet :: "string \<Rightarrow> Wallet" where
  "newWallet filename =
     \<lparr>prevHeight = 0,
      saveFilename = filename,
      spentCounter = 1,
      addresses = [],
      timelockedAddresses = [],
      transactionCounter = 0,
      transactions = Map.empty\<rparr>"

definition New ::
  "(Wallet \<Rightarrow> string \<Rightarrow> error option \<times> Wallet) \<Rightarrow> string \<Rightarrow> error option \<times> Wallet" where
  "New Load filename = Load (newWallet filename) filename"

text \<open>
  \<^verbatim>\<open>SpendCoins\<close>, step by step as the source has it: the miner fee is the constant 10,
  the named result \<open>t\<close> is the zero transaction until \<^verbatim>\<open>SignTransaction\<close> assigns it, and
  each error returns at once. \<open>accept\<close> is \<^verbatim>\<open>AcceptTransaction\<close> of the consensus set
  and \<open>h\<close> the height the consensus set reports during the call.
\<close>

definition SpendCoins ::
  "signer \<Rightarrow> (Transaction \<Rightarrow> error option) \<Rightarrow> BlockHeight \<Rightarrow> Wallet \<Rightarrow>
   Currency \<Rightarrow> CoinAddress \<Rightarrow> Transaction \<times> error option \<times> Wallet" where
  "SpendCoins sg accept h w amount dest =
     (let minerFee = 10;
          output = \<lparr>Value = amount, SpendHash = dest\<rparr>;
          t = zeroTransaction
      in case RegisterTransaction w t of
           (tid, Some e, w1) \<Rightarrow> (t, Some e, w1)
         | (tid, None, w1) \<Rightarrow>
        (case FundTransaction h w1 tid (amount + minerFee) of
           (Some e, w2) \<Rightarrow> (t, Some e, w2)
         | (None, w2) \<Rightarrow>
        (case AddMinerFee w2 tid minerFee of
           (Some e, w3) \<Rightarrow> (t, Some e, w3)
         | (None, w3) \<Rightarrow>
        (case AddOutput w3 tid output of
           (Some e, w4) \<Rightarrow> (t, Some e, w4)
         | (None, w4) \<Rightarrow>
        (case SignTransaction sg w4 tid True of
           (t', Some e, w5) \<Rightarrow> (t', Some e, w5)
         | (t', None, w5) \<Rightarrow> (t', accept t', w5))))))"

section \<open>Runs of wallet operations\<close>

text \<open>
  The operations of the builder as data, so that properties can be stated over every
  sequence of calls. A call that fails leaves the wallet as the operation left it. The
  height in \<open>Fund\<close> is the one the consensus set reports when the call is made.
\<close>

datatype op =
    Register Transaction
  | Fund BlockHeight string Currency
  | AddOutputOp string Output
  | AddMinerFeeOp string Currency
  | Sign string bool
  | Abort string

fun builderStep :: "signer \<Rightarrow> Wallet \<Rightarrow> op \<Rightarrow> Wallet" where
  "builderStep sg w (Register t) = snd (snd (RegisterTransaction w t))"
| "builderStep sg w (Fund h tid amount) = snd (FundTransaction h w tid amount)"
| "builderStep sg w (AddOutputOp tid out) = snd (AddOutput w tid out)"
| "builderStep sg w (AddMinerFeeOp tid fee) = snd (AddMinerFee w tid fee)"
| "builderStep sg w (Sign tid finalize) = snd (snd (SignTransaction sg w tid finalize))"
| "builderStep sg w (Abort tid) = snd (AbortTransaction w tid)"

text \<open>
  The builder's operations together with the two operations of the address book
  that touch the generation.
\<close>

datatype walletOp =
    Builder op
  | Mark OutputID
  | Reset

fun walletStep :: "signer \<Rightarrow> Wallet \<Rightarrow> walletOp \<Rightarrow> Wallet" where
  "walletStep sg w (Builder b) = builderStep sg w b"
| "walletStep sg w (Mark x) = markProvisionallySpent w x"
| "walletStep sg w Reset = resetGeneration w"

definition run :: "signer \<Rightarrow> Wallet \<Rightarrow> walletOp list \<Rightarrow> Wallet" where
  "run sg w ops = foldl (walletStep sg) w ops"

text \<open>The ids that the \<open>Register\<close> calls of a run return, in order.\<close>

fun registeredIds :: "signer \<Rightarrow> Wallet \<Rightarrow> walletOp list \<Rightarrow> string list" where
  "registeredIds sg w [] = []"
| "registeredIds sg w (Builder (Register t) # ops) =
     fst (RegisterTransaction w t) # registeredIds sg (walletStep sg w (Builder (Register t))) ops"
| "registeredIds sg w (x # ops) = registeredIds sg (walletStep sg w x) ops"

text \<open>The ids of the outputs that an open transaction has reserved.\<close>

definition reservedIDs :: "openTransaction \<Rightarrow> OutputID set" where
  "reservedIDs ot = set (map (outputID \<circ> snd) (reservedOutputs ot))"

definition noDoubleReservation :: "Wallet \<Rightarrow> bool" where
  "noDoubleReservation w =
     (\<forall>i j oi oj. i \<noteq> j \<and> transactions w i = Some oi \<and> transactions w j = Some oj
        \<longrightarrow> reservedIDs oi \<inter> reservedIDs oj = {})"

section \<open>A caller driving the builder by hand\<close>




section \<open>The consensus handler of the API\<close>

text \<open>
  \<^verbatim>\<open>consensusHandlerGET\<close> and \<^verbatim>\<open>consensusHandler\<close>. The server reads the child
  target of its current block from the consensus set and writes one JSON object. The
  \<^verbatim>\<open>Server\<close> struct, the types of package \<^verbatim>\<open>types\<close>, \<^verbatim>\<open>writeJSON\<close> and
  \<^verbatim>\<open>writeError\<close> are declared elsewhere: the server is the three fields the handler
  reads, a block's \<^verbatim>\<open>ID()\<close> is a parameter, the response writer is the list of
  responses written so far, and a panic is a result of its own. \<^verbatim>\<open>blockchainHeight\<close>
  is converted to the unsigned 64-bit \<^verbatim>\<open>types.BlockHeight\<close>.
\<close>

type_synonym BlockID = nat
type_synonym Block = nat
type_synonym Target = nat

record ConsensusGET =
  Height :: BlockHeight
  CurrentBlock :: BlockID
  Target :: Target

record ConsensusSet =
  ChildTarget :: "BlockID \<Rightarrow> Target \<times> bool"

record Server =
  cs :: ConsensusSet
  currentBlock :: Block
  blockchainHeight :: int

record Request =
  Method :: string

datatype response =
    JSON ConsensusGET
  | Error string nat

definition toBlockHeight :: "int \<Rightarrow> BlockHeight" where
  "toBlockHeight i = nat (i mod 2 ^ 64)"

definition writeJSON :: "response list \<Rightarrow> ConsensusGET \<Rightarrow> response list" where
  "writeJSON w obj = w @ [JSON obj]"

definition writeError :: "response list \<Rightarrow> string \<Rightarrow> nat \<Rightarrow> response list" where
  "writeError w msg code = w @ [Error msg code]"

definition StatusBadRequest :: nat where
  "StatusBadRequest = 400"

definition consensusHandlerGET ::
  "(Block \<Rightarrow> BlockID) \<Rightarrow> bool \<Rightarrow> Server \<Rightarrow> response list \<Rightarrow> Request \<Rightarrow>
   string + response list" where
  "consensusHandlerGET ID DEBUG srv w req =
     (case ChildTarget (cs srv) (ID (currentBlock srv)) of
        (currentTarget, exists) \<Rightarrow>
          if DEBUG \<and> \<not> exists then Inl ''server has nonexistent current block''
          else Inr (writeJSON w
                 \<lparr>Height = toBlockHeight (blockchainHeight srv),
                  CurrentBlock = ID (currentBlock srv),
                  Target = currentTarget\<rparr>))"

definition consensusHandler ::
  "(Block \<Rightarrow> BlockID) \<Rightarrow> bool \<Rightarrow> Server \<Rightarrow> response list \<Rightarrow> Request \<Rightarrow>
   string + response list" where
  "consensusHandler ID DEBUG srv w req =
     (if Method req = '''' \<or> Method req = ''GET''
      then consensusHandlerGET ID DEBUG srv w req
      else Inr (writeError w ''unrecognized method when calling /consensus'' StatusBadRequest))"

section \<open>Auxiliary definitions\<close>

text \<open>Reading a decimal numeral back, to show that distinct counters give distinct ids.\<close>

definition digitVal :: "char \<Rightarrow> nat" where
  "digitVal c = of_char c - 48"

fun undigits :: "nat \<Rightarrow> string \<Rightarrow> nat" where
  "undigits acc [] = acc"
| "undigits acc (c # rest) = undigits (10 * acc + digitVal c) rest"

text \<open>Marking a set of outputs at once: what a selection has done when it ends.\<close>

definition markAll :: "Wallet \<Rightarrow> OutputID set \<Rightarrow> Wallet" where
  "markAll w X =
     mapOutputs (\<lambda>out. if outputID out \<in> X then out\<lparr>generation := spentCounter w\<rparr> else out) w"

text \<open>
  Every output that a live open transaction has reserved carries the current
  generation: the fact that keeps a later selection away from it.
\<close>

definition reservationsMarked :: "Wallet \<Rightarrow> bool" where
  "reservationsMarked w =
     (\<forall>tid ot. transactions w tid = Some ot \<longrightarrow>
        (\<forall>c \<in> set (allOutputs w).
           outputID (snd c) \<in> reservedIDs ot \<longrightarrow> generation (snd c) = spentCounter w))"

text \<open>A signer and a wallet with one address and two confirmed outputs, for the examples.\<close>

definition exampleSigner :: signer where
  "exampleSigner draft i conds key = Inr (key + i + 1)"

definition exampleWallet :: Wallet where
  "exampleWallet =
     (newWallet ''wallet.dat'')
       \<lparr>addresses :=
          [(7, \<lparr>spendConditions = \<lparr>PublicKeys = [1], TimeLock = None\<rparr>, secretKey = 5,
                spendableOutputs =
                  [\<lparr>outputID = 1, outputValue = 100, generation = 0, confirmed = True\<rparr>,
                   \<lparr>outputID = 2, outputValue = 50, generation = 0, confirmed = True\<rparr>]\<rparr>)]\<rparr>"

text \<open>Two ledgers for the examples: one accepts every transaction, one rejects every one.\<close>

definition acceptingLedger :: "Transaction \<Rightarrow> error option" where
  "acceptingLedger t = None"

definition rejectingLedger :: "Transaction \<Rightarrow> error option" where
  "rejectingLedger t = Some (LedgerRejected ''conflicting spend'')"

text \<open>A server whose current block is known to the consensus set, and a GET request.\<close>

definition exampleID :: "Block \<Rightarrow> BlockID" where
  "exampleID b = b + 1000"

definition exampleServer :: Server where
  "exampleServer =
     \<lparr>cs = \<lparr>ChildTarget = (\<lambda>b. if b = 1003 then (77, True) else (0, False))\<rparr>,
      currentBlock = 3,
      blockchainHeight = 12\<rparr>"

definition exampleRequest :: Request where
  "exampleRequest = \<lparr>Method = ''GET''\<rparr>"

text \<open>
  A run in which the generation is reset only while no open transaction holds a
  reservation.
\<close>

fun resetsWhileIdle :: "signer \<Rightarrow> Wallet \<Rightarrow> walletOp list \<Rightarrow> bool" where
  "resetsWhileIdle sg w [] = True"
| "resetsWhileIdle sg w (x # ops) =
     ((x = Reset \<longrightarrow> (\<forall>tid ot. transactions w tid = Some ot \<longrightarrow> reservedOutputs ot = [])) \<and>
      resetsWhileIdle sg (walletStep sg w x) ops)"

text \<open>
  Two runs on the example wallet. In the first, two open transactions fund
  themselves one after the other. In the second, the generation is reset between the
  two funding calls.
\<close>

definition fundingRun :: "walletOp list" where
  "fundingRun =
     [Reset, Builder (Register zeroTransaction), Builder (Register zeroTransaction),
      Builder (Fund 0 ''1'' 60), Mark 7, Builder (Fund 0 ''2'' 30)]"

definition resettingRun :: "walletOp list" where
  "resettingRun =
     [Builder (Register zeroTransaction), Builder (Register zeroTransaction),
      Builder (Fund 0 ''1'' 60), Reset, Builder (Fund 0 ''2'' 30)]"

text \<open>The ids of the outputs reserved under an id of the registry.\<close>

definition reservedUnder :: "Wallet \<Rightarrow> string \<Rightarrow> OutputID list option" where
  "reservedUnder w tid = map_option (map (outputID \<circ> snd) \<circ> reservedOutputs) (transactions w tid)"

text \<open>A signer that lacks the key material, and three calls of \<^verbatim>\<open>SpendCoins\<close> on the example wallet.\<close>

definition failingSigner :: signer where
  "failingSigner draft i conds key = Inl SignatureConditionMismatch"

definition acceptedSpend :: "Transaction \<times> error option \<times> Wallet" where
  "acceptedSpend = SpendCoins exampleSigner acceptingLedger 0 exampleWallet 40 9"

definition rejectedSpend :: "Transaction \<times> error option \<times> Wallet" where
  "rejectedSpend = SpendCoins exampleSigner rejectingLedger 0 exampleWallet 40 9"

definition underfundedSpend :: "Transaction \<times> error option \<times> Wallet" where
  "underfundedSpend = SpendCoins exampleSigner acceptingLedger 0 exampleWallet 1000 9"

definition unsignedSpend :: "Transaction \<times> error option \<times> Wallet" where
  "unsignedSpend = SpendCoins failingSigner acceptingLedger 0 exampleWallet 40 9"

section \<open>Decimal numerals are injective\<close>

lemma digitVal_digitChar: "d < 10 \<Longrightarrow> digitVal (digitChar d) = d"
  by (simp add: digitVal_def digitChar_def)

lemma undigits_append: "undigits acc (xs @ ys) = undigits (undigits acc xs) ys"
  by (induction xs arbitrary: acc) simp_all

lemma digits_small: "n < 10 \<Longrightarrow> digits n = [digitChar n]"
  by (subst digits.simps) simp

lemma digits_large: "\<not> n < 10 \<Longrightarrow> digits n = digits (n div 10) @ [digitChar (n mod 10)]"
  by (subst digits.simps) simp

lemma undigits_digits: "undigits 0 (digits n) = n"
proof (induction n rule: digits.induct)
  case (1 n)
  show ?case
  proof (cases "n < 10")
    case True
    then show ?thesis by (simp add: digits_small digitVal_digitChar)
  next
    case False
    with 1 have "undigits 0 (digits (n div 10)) = n div 10" by simp
    with False show ?thesis
      by (simp add: digits_large undigits_append digitVal_digitChar)
  qed
qed

lemma digits_inj: "digits m = digits n \<Longrightarrow> m = n"
  by (metis undigits_digits)

lemma of_char_minus: "(of_char CHR ''-'' :: nat) = 45"
  by simp

lemma of_char_digitChar: "d < 10 \<Longrightarrow> (of_char (digitChar d) :: nat) = 48 + d"
  unfolding digitChar_def by (simp only: of_char_of) simp

lemma digitChar_not_minus: "d < 10 \<Longrightarrow> digitChar d \<noteq> CHR ''-''"
proof
  assume d: "d < 10" and e: "digitChar d = CHR ''-''"
  have "(of_char (digitChar d) :: nat) = 48 + d" using d by (rule of_char_digitChar)
  moreover have "(of_char (digitChar d) :: nat) = 45" unfolding e by (rule of_char_minus)
  ultimately show False by simp
qed

lemma digits_not_minus: "c \<in> set (digits n) \<Longrightarrow> c \<noteq> CHR ''-''"
proof (induction n rule: digits.induct)
  case (1 n)
  show ?case
  proof (cases "n < 10")
    case True
    with 1(2) have "c = digitChar n" by (simp add: digits_small)
    with True show ?thesis by (simp add: digitChar_not_minus)
  next
    case False
    with 1(2) have "c \<in> set (digits (n div 10)) \<or> c = digitChar (n mod 10)"
      by (auto simp: digits_large)
    then show ?thesis
    proof
      assume "c \<in> set (digits (n div 10))"
      with 1(1) False show ?thesis by simp
    next
      assume "c = digitChar (n mod 10)"
      then show ?thesis by (simp add: digitChar_not_minus)
    qed
  qed
qed

lemma digits_nonempty: "digits n \<noteq> []"
  by (cases "n < 10") (simp_all add: digits_small digits_large)

lemma Itoa_inj: "Itoa i = Itoa j \<Longrightarrow> i = j"
proof -
  assume eq: "Itoa i = Itoa j"
  have hd_digits: "\<And>n. hd (digits n) \<noteq> CHR ''-''"
    using digits_not_minus digits_nonempty by (metis hd_in_set)
  show "i = j"
  proof (cases "i < 0")
    case True
    show ?thesis
    proof (cases "j < 0")
      case True
      with \<open>i < 0\<close> eq have "digits (nat (- i)) = digits (nat (- j))" by (simp add: Itoa_def)
      then have "nat (- i) = nat (- j)" by (rule digits_inj)
      with True \<open>i < 0\<close> show ?thesis by simp
    next
      case False
      with \<open>i < 0\<close> eq have "CHR ''-'' # digits (nat (- i)) = digits (nat j)" by (simp add: Itoa_def)
      then have "hd (digits (nat j)) = CHR ''-''" by (metis list.sel(1))
      with hd_digits show ?thesis by simp
    qed
  next
    case False
    show ?thesis
    proof (cases "j < 0")
      case True
      with False eq have "digits (nat i) = CHR ''-'' # digits (nat (- j))" by (simp add: Itoa_def)
      then have "hd (digits (nat i)) = CHR ''-''" by (metis list.sel(1))
      with hd_digits show ?thesis by simp
    next
      case j: False
      with False eq have "digits (nat i) = digits (nat j)" by (simp add: Itoa_def)
      then have "nat i = nat j" by (rule digits_inj)
      with False j show ?thesis by simp
    qed
  qed
qed

subsection \<open>The address book under marking and dropping\<close>

lemma mapOutputs_fields [simp]:
  "spentCounter (mapOutputs f w) = spentCounter w"
  "transactions (mapOutputs f w) = transactions w"
  "transactionCounter (mapOutputs f w) = transactionCounter w"
  "length (addresses (mapOutputs f w)) = length (addresses w)"
  by (simp_all add: mapOutputs_def)

lemma filterOutputs_fields [simp]:
  "spentCounter (filterOutputs P w) = spentCounter w"
  "transactions (filterOutputs P w) = transactions w"
  "transactionCounter (filterOutputs P w) = transactionCounter w"
  "length (addresses (filterOutputs P w)) = length (addresses w)"
  by (simp_all add: filterOutputs_def)

lemma allOutputs_mapOutputs: "allOutputs (mapOutputs f w) = map (apsnd f) (allOutputs w)"
  by (simp add: allOutputs_def mapOutputs_def map_concat comp_def case_prod_unfold)

lemma allOutputs_filterOutputs:
  "allOutputs (filterOutputs P w) = filter (P \<circ> snd) (allOutputs w)"
  by (simp add: allOutputs_def filterOutputs_def filter_concat filter_map comp_def case_prod_unfold)

lemma allOutputs_update [simp]:
  "allOutputs (w\<lparr>transactions := m\<rparr>) = allOutputs w"
  "allOutputs (w\<lparr>transactionCounter := c\<rparr>) = allOutputs w"
  "allOutputs (w\<lparr>spentCounter := g\<rparr>) = allOutputs w"
  by (simp_all add: allOutputs_def)

lemma mapOutputs_mapOutputs: "mapOutputs f (mapOutputs g w) = mapOutputs (f \<circ> g) w"
  by (simp add: mapOutputs_def comp_def case_prod_unfold)

lemma mapOutputs_ident: "(\<And>out. f out = out) \<Longrightarrow> mapOutputs f w = w"
proof -
  assume "\<And>out. f out = out"
  then have "f = (\<lambda>out. out)" by (simp add: fun_eq_iff)
  then show ?thesis by (simp add: mapOutputs_def case_prod_unfold)
qed

lemma markAll_fields [simp]:
  "spentCounter (markAll w X) = spentCounter w"
  "transactions (markAll w X) = transactions w"
  "transactionCounter (markAll w X) = transactionCounter w"
  by (simp_all add: markAll_def)

lemma markAll_empty: "markAll w {} = w"
  by (simp add: markAll_def mapOutputs_ident)

lemma mark_markAll: "markProvisionallySpent (markAll w X) x = markAll w (insert x X)"
proof -
  have c: "(\<lambda>out. if outputID out = x then out\<lparr>generation := spentCounter w\<rparr> else out) \<circ>
        (\<lambda>out. if outputID out \<in> X then out\<lparr>generation := spentCounter w\<rparr> else out) =
        (\<lambda>out. if outputID out \<in> insert x X then out\<lparr>generation := spentCounter w\<rparr> else out)"
    by (rule ext) simp
  have m: "markProvisionallySpent (markAll w X) x =
      mapOutputs (\<lambda>out. if outputID out = x then out\<lparr>generation := spentCounter w\<rparr> else out)
        (markAll w X)"
    unfolding markProvisionallySpent_def markAll_fields ..
  show ?thesis
    unfolding m unfolding markAll_def mapOutputs_mapOutputs c ..
qed

lemma markProvisionallySpent_markAll: "markProvisionallySpent w x = markAll w {x}"
  by (simp add: markProvisionallySpent_def markAll_def)

lemma allOutputs_markAll:
  "allOutputs (markAll w X) =
     map (apsnd (\<lambda>out. if outputID out \<in> X then out\<lparr>generation := spentCounter w\<rparr> else out))
       (allOutputs w)"
  by (simp add: markAll_def allOutputs_mapOutputs)

lemma unspentOutputs_subset:
  "c \<in> set (unspentOutputs h w) \<Longrightarrow> c \<in> set (allOutputs w) \<and> generation (snd c) < spentCounter w"
  by (auto simp: unspentOutputs_def allOutputs_def split: if_splits)

subsection \<open>The selection loop\<close>

lemma selectLoop_markAll:
  "selectLoop target cands (markAll w X) sel tot = (w', sel', tot') \<Longrightarrow>
   \<exists>taken. sel' = sel @ taken \<and> set taken \<subseteq> set cands \<and>
           w' = markAll w (X \<union> (outputID \<circ> snd) ` set taken)"
proof (induction cands arbitrary: X sel tot)
  case Nil
  then show ?case by simp
next
  case (Cons c cands)
  show ?case
  proof (cases "target \<le> tot")
    case True
    with Cons.prems show ?thesis by simp
  next
    case False
    with Cons.prems have
      "selectLoop target cands (markAll w (insert (outputID (snd c)) X)) (sel @ [c])
         (tot + outputValue (snd c)) = (w', sel', tot')"
      by (simp add: mark_markAll)
    from Cons.IH [OF this] obtain taken where
      t: "sel' = (sel @ [c]) @ taken" "set taken \<subseteq> set cands"
         "w' = markAll w (insert (outputID (snd c)) X \<union> (outputID \<circ> snd) ` set taken)"
      by blast
    show ?thesis
    proof (intro exI conjI)
      show "sel' = sel @ (c # taken)" using t(1) by simp
      show "set (c # taken) \<subseteq> set (c # cands)" using t(2) by auto
      show "w' = markAll w (X \<union> (outputID \<circ> snd) ` set (c # taken))" using t(3) by simp
    qed
  qed
qed

lemma selectOutputs_Inr:
  assumes "selectOutputs target h w = Inr (w', sel, tot)"
  shows "set sel \<subseteq> set (unspentOutputs h w) \<and> w' = markAll w ((outputID \<circ> snd) ` set sel)"
proof -
  obtain w1 sel1 tot1 where l: "selectLoop target (unspentOutputs h w) w [] 0 = (w1, sel1, tot1)"
    by (metis prod_cases3)
  with assms have eq: "w1 = w'" "sel1 = sel"
    by (auto simp: selectOutputs_def split: if_splits)
  from l have "selectLoop target (unspentOutputs h w) (markAll w {}) [] 0 = (w1, sel1, tot1)"
    by (simp add: markAll_empty)
  from selectLoop_markAll [OF this] eq show ?thesis by auto
qed

lemma selectOutputs_Inl: "selectOutputs target h w = Inl e \<Longrightarrow> e = InsufficientFunds"
  by (auto simp: selectOutputs_def split: prod.splits if_splits)

subsection \<open>What each builder operation does to the wallet\<close>

lemma RegisterTransaction_result:
  "RegisterTransaction w t =
     (Itoa (transactionCounter w + 1), None,
      w\<lparr>transactionCounter := transactionCounter w + 1,
        transactions := (transactions w)
          (Itoa (transactionCounter w + 1) \<mapsto>
             \<lparr>transaction = t, reservedOutputs = [], txState = Empty\<rparr>)\<rparr>)"
  by (simp add: RegisterTransaction_def Let_def)

lemma FundTransaction_cases:
  assumes "FundTransaction h w tid amount = (e, w')"
  shows "(e \<noteq> None \<and> w' = w) \<or>
         (\<exists>ot sel. e = None \<and> transactions w tid = Some ot \<and>
            set sel \<subseteq> set (unspentOutputs h w) \<and>
            w' = (markAll w ((outputID \<circ> snd) ` set sel))
                   \<lparr>transactions := (transactions w)
                      (tid \<mapsto> ot\<lparr>transaction :=
                                  (transaction ot)\<lparr>Inputs :=
                                     Inputs (transaction ot) @ map (newInput w) sel\<rparr>,
                                reservedOutputs := reservedOutputs ot @ sel,
                                txState := Funded\<rparr>)\<rparr>)"
proof (cases "transactions w tid")
  case None
  with assms show ?thesis by (auto simp: FundTransaction_def)
next
  case (Some ot)
  show ?thesis
  proof (cases "txState ot \<noteq> Empty \<and> txState ot \<noteq> Funded")
    case True
    with assms Some show ?thesis by (auto simp: FundTransaction_def)
  next
    case False
    show ?thesis
    proof (cases "selectOutputs amount h w")
      case (Inl err)
      with assms Some False show ?thesis by (auto simp: FundTransaction_def)
    next
      case (Inr r)
      obtain w1 sel tot where r: "r = (w1, sel, tot)" by (metis prod_cases3)
      from selectOutputs_Inr [OF Inr [unfolded r]]
      have s: "set sel \<subseteq> set (unspentOutputs h w)"
        and w1: "w1 = markAll w ((outputID \<circ> snd) ` set sel)" by auto
      from assms Some False Inr r have "e = None" and
        "w' = w1\<lparr>transactions := (transactions w1)
                      (tid \<mapsto> ot\<lparr>transaction :=
                                  (transaction ot)\<lparr>Inputs :=
                                     Inputs (transaction ot) @ map (newInput w) sel\<rparr>,
                                reservedOutputs := reservedOutputs ot @ sel,
                                txState := Funded\<rparr>)\<rparr>"
        by (auto simp: FundTransaction_def)
      with s w1 Some show ?thesis by auto
    qed
  qed
qed

lemma AddOutput_cases:
  assumes "AddOutput w tid out = (e, w')"
  shows "(e \<noteq> None \<and> w' = w) \<or>
         (\<exists>ot. e = None \<and> transactions w tid = Some ot \<and> txState ot = Funded \<and>
            w' = w\<lparr>transactions := (transactions w)
                   (tid \<mapsto> ot\<lparr>transaction :=
                               (transaction ot)\<lparr>Outputs := Outputs (transaction ot) @ [out]\<rparr>\<rparr>)\<rparr>)"
  using assms by (auto simp: AddOutput_def split: option.splits if_splits)

lemma AddMinerFee_cases:
  assumes "AddMinerFee w tid fee = (e, w')"
  shows "(e \<noteq> None \<and> w' = w) \<or>
         (\<exists>ot. e = None \<and> transactions w tid = Some ot \<and> txState ot = Funded \<and>
            w' = w\<lparr>transactions := (transactions w)
                   (tid \<mapsto> ot\<lparr>transaction :=
                               (transaction ot)\<lparr>MinerFees := MinerFees (transaction ot) @ [fee]\<rparr>\<rparr>)\<rparr>)"
  using assms by (auto simp: AddMinerFee_def split: option.splits if_splits)

lemma SignTransaction_cases:
  assumes "SignTransaction sg w tid finalize = (t, e, w')"
  shows "(e \<noteq> None \<and> w' = w \<and> t = zeroTransaction) \<or>
         (\<exists>ot. e = None \<and> transactions w tid = Some ot \<and> txState ot = Funded \<and>
            signReserved sg (transaction ot) (addresses w) (reservedOutputs ot) (transaction ot) = Inr t \<and>
            w' = (if finalize
                  then (filterOutputs (\<lambda>out. outputID out \<notin> reservedIDs ot) w)
                         \<lparr>transactions := (transactions w)(tid := None)\<rparr>
                  else w))"
  using assms
  by (auto simp: SignTransaction_def reservedIDs_def split: option.splits if_splits sum.splits)

lemma AbortTransaction_cases:
  assumes "AbortTransaction w tid = (e, w')"
  shows "(e = Some UnknownTransaction \<and> transactions w tid = None \<and> w' = w) \<or>
         (\<exists>ot. e = None \<and> transactions w tid = Some ot \<and>
            w' = (mapOutputs (\<lambda>out. if outputID out \<in> reservedIDs ot
                                    then out\<lparr>generation := 0\<rparr> else out) w)
                   \<lparr>transactions := (transactions w)(tid := None)\<rparr>)"
  using assms
  by (auto simp: AbortTransaction_def reservedIDs_def split: option.splits)

subsection \<open>Reservations stay marked and disjoint\<close>

lemma reservedIDs_simps [simp]:
  "reservedIDs (ot\<lparr>transaction := t\<rparr>) = reservedIDs ot"
  "reservedIDs (ot\<lparr>txState := s\<rparr>) = reservedIDs ot"
  "reservedIDs (ot\<lparr>reservedOutputs := rs\<rparr>) = (outputID \<circ> snd) ` set rs"
  "reservedIDs \<lparr>transaction = t, reservedOutputs = [], txState = s\<rparr> = {}"
  by (simp_all add: reservedIDs_def)

lemma reservedIDs_append:
  "(outputID \<circ> snd) ` set (reservedOutputs ot @ sel) = reservedIDs ot \<union> (outputID \<circ> snd) ` set sel"
  by (auto simp: reservedIDs_def)

lemma inv_register:
  assumes "reservationsMarked w" "noDoubleReservation w"
  shows "reservationsMarked (snd (snd (RegisterTransaction w t))) \<and>
         noDoubleReservation (snd (snd (RegisterTransaction w t)))"
proof -
  let ?k = "Itoa (transactionCounter w + 1)"
  let ?new = "\<lparr>transaction = t, reservedOutputs = [], txState = Empty\<rparr>"
  let ?w' = "w\<lparr>transactionCounter := transactionCounter w + 1,
               transactions := (transactions w)(?k \<mapsto> ?new)\<rparr>"
  have m: "reservationsMarked ?w'"
    unfolding reservationsMarked_def
  proof (intro allI impI ballI)
    fix tid ot c
    assume 1: "transactions ?w' tid = Some ot" and 2: "c \<in> set (allOutputs ?w')"
      and 3: "outputID (snd c) \<in> reservedIDs ot"
    show "generation (snd c) = spentCounter ?w'"
    proof (cases "tid = ?k")
      case True
      with 1 have "ot = ?new" by simp
      with 3 show ?thesis by simp
    next
      case False
      with 1 have "transactions w tid = Some ot" by simp
      with assms(1) 2 3 show ?thesis by (simp add: reservationsMarked_def)
    qed
  qed
  have d: "noDoubleReservation ?w'"
    unfolding noDoubleReservation_def
  proof (intro allI impI)
    fix i j oi oj
    assume a: "i \<noteq> j \<and> transactions ?w' i = Some oi \<and> transactions ?w' j = Some oj"
    show "reservedIDs oi \<inter> reservedIDs oj = {}"
    proof (cases "i = ?k \<or> j = ?k")
      case True
      with a have "oi = ?new \<or> oj = ?new" by auto
      then show ?thesis by auto
    next
      case False
      with a have "transactions w i = Some oi" "transactions w j = Some oj" "i \<noteq> j" by auto
      with assms(2) show ?thesis unfolding noDoubleReservation_def by blast
    qed
  qed
  from m d show ?thesis by (simp add: RegisterTransaction_result)
qed

lemma inv_fund:
  assumes m: "reservationsMarked w" and d: "noDoubleReservation w"
    and f: "FundTransaction h w tid amount = (e, w')"
  shows "reservationsMarked w' \<and> noDoubleReservation w'"
proof -
  from FundTransaction_cases [OF f] show ?thesis
  proof
    assume "e \<noteq> None \<and> w' = w"
    with m d show ?thesis by simp
  next
    assume "\<exists>ot sel. e = None \<and> transactions w tid = Some ot \<and>
            set sel \<subseteq> set (unspentOutputs h w) \<and>
            w' = (markAll w ((outputID \<circ> snd) ` set sel))
                   \<lparr>transactions := (transactions w)
                      (tid \<mapsto> ot\<lparr>transaction :=
                                  (transaction ot)\<lparr>Inputs :=
                                     Inputs (transaction ot) @ map (newInput w) sel\<rparr>,
                                reservedOutputs := reservedOutputs ot @ sel,
                                txState := Funded\<rparr>)\<rparr>"
    then obtain ot sel where live: "transactions w tid = Some ot"
      and sel: "set sel \<subseteq> set (unspentOutputs h w)"
      and w': "w' = (markAll w ((outputID \<circ> snd) ` set sel))
                   \<lparr>transactions := (transactions w)
                      (tid \<mapsto> ot\<lparr>transaction :=
                                  (transaction ot)\<lparr>Inputs :=
                                     Inputs (transaction ot) @ map (newInput w) sel\<rparr>,
                                reservedOutputs := reservedOutputs ot @ sel,
                                txState := Funded\<rparr>)\<rparr>"
      by blast
    let ?X = "(outputID \<circ> snd) ` set sel"
    let ?ot' = "ot\<lparr>transaction := (transaction ot)\<lparr>Inputs :=
                      Inputs (transaction ot) @ map (newInput w) sel\<rparr>,
                   reservedOutputs := reservedOutputs ot @ sel, txState := Funded\<rparr>"
    have ids': "reservedIDs ?ot' = reservedIDs ot \<union> ?X"
      by (auto simp: reservedIDs_def)
    have tr: "transactions w' = (transactions w)(tid \<mapsto> ?ot')" by (simp add: w')
    have sc: "spentCounter w' = spentCounter w" by (simp add: w')
    have ao: "allOutputs w' =
        map (apsnd (\<lambda>out. if outputID out \<in> ?X then out\<lparr>generation := spentCounter w\<rparr> else out))
          (allOutputs w)"
      by (simp add: w' allOutputs_markAll)
    have fresh: "x \<notin> reservedIDs oj" if "x \<in> ?X" "transactions w j = Some oj" for x j oj
    proof
      assume r: "x \<in> reservedIDs oj"
      from that(1) obtain c where c: "c \<in> set sel" "x = outputID (snd c)" by auto
      with sel have "c \<in> set (allOutputs w)" "generation (snd c) < spentCounter w"
        using unspentOutputs_subset by blast+
      moreover from m that(2) r c(2) \<open>c \<in> set (allOutputs w)\<close>
      have "generation (snd c) = spentCounter w"
        unfolding reservationsMarked_def by blast
      ultimately show False by simp
    qed
    have m': "reservationsMarked w'"
      unfolding reservationsMarked_def
    proof (intro allI impI ballI)
      fix j oj c
      assume 1: "transactions w' j = Some oj" and 2: "c \<in> set (allOutputs w')"
        and 3: "outputID (snd c) \<in> reservedIDs oj"
      from 2 ao obtain c0 where c0: "c0 \<in> set (allOutputs w)"
        "c = apsnd (\<lambda>out. if outputID out \<in> ?X then out\<lparr>generation := spentCounter w\<rparr> else out) c0"
        by auto
      show "generation (snd c) = spentCounter w'"
      proof (cases "outputID (snd c0) \<in> ?X")
        case True
        with c0(2) sc show ?thesis by simp
      next
        case False
        with c0(2) have same: "snd c = snd c0" by simp
        have "\<exists>o0. transactions w (if j = tid then tid else j) = Some o0 \<and>
                outputID (snd c0) \<in> reservedIDs o0"
        proof (cases "j = tid")
          case True
          with 1 tr have "oj = ?ot'" by simp
          with 3 ids' same False have "outputID (snd c0) \<in> reservedIDs ot" by auto
          with live True show ?thesis by auto
        next
          case j: False
          with 1 tr have "transactions w j = Some oj" by simp
          with 3 same j show ?thesis by auto
        qed
        with m c0(1) have "generation (snd c0) = spentCounter w"
          unfolding reservationsMarked_def by blast
        with same sc show ?thesis by simp
      qed
    qed
    have d': "noDoubleReservation w'"
      unfolding noDoubleReservation_def
    proof (intro allI impI)
      fix i j oi oj
      assume a: "i \<noteq> j \<and> transactions w' i = Some oi \<and> transactions w' j = Some oj"
      have one: "reservedIDs ?ot' \<inter> reservedIDs o2 = {}"
        if "k \<noteq> tid" "transactions w k = Some o2" for k o2
      proof -
        from d live that have "reservedIDs ot \<inter> reservedIDs o2 = {}"
          unfolding noDoubleReservation_def by blast
        moreover from fresh that(2) have "?X \<inter> reservedIDs o2 = {}" by blast
        ultimately show ?thesis unfolding ids' by blast
      qed
      show "reservedIDs oi \<inter> reservedIDs oj = {}"
      proof (cases "i = tid")
        case True
        with a tr have "oi = ?ot'" "transactions w j = Some oj" "j \<noteq> tid" by auto
        with one show ?thesis by blast
      next
        case False
        show ?thesis
        proof (cases "j = tid")
          case True
          with a tr have "oj = ?ot'" "transactions w i = Some oi" "i \<noteq> tid" by auto
          with one [of i oi] show ?thesis by blast
        next
          case j: False
          with False a tr have "transactions w i = Some oi" "transactions w j = Some oj" "i \<noteq> j"
            by auto
          with d show ?thesis unfolding noDoubleReservation_def by blast
        qed
      qed
    qed
    from m' d' show ?thesis ..
  qed
qed

lemma inv_frame:
  assumes m: "reservationsMarked w" and d: "noDoubleReservation w"
    and sc: "spentCounter w' = spentCounter w"
    and tr: "\<And>j oj. transactions w' j = Some oj \<Longrightarrow>
               \<exists>o0. transactions w j = Some o0 \<and> reservedIDs oj = reservedIDs o0"
    and ao: "\<And>c. c \<in> set (allOutputs w') \<Longrightarrow>
               \<exists>c0 \<in> set (allOutputs w). outputID (snd c) = outputID (snd c0) \<and>
                  (generation (snd c) = generation (snd c0) \<or>
                   generation (snd c) = spentCounter w' \<or>
                   (\<forall>j oj. transactions w' j = Some oj \<longrightarrow> outputID (snd c) \<notin> reservedIDs oj))"
  shows "reservationsMarked w' \<and> noDoubleReservation w'"
proof
  show "reservationsMarked w'"
    unfolding reservationsMarked_def
  proof (intro allI impI ballI)
    fix j oj c
    assume 1: "transactions w' j = Some oj" and 2: "c \<in> set (allOutputs w')"
      and 3: "outputID (snd c) \<in> reservedIDs oj"
    from tr [OF 1] obtain o0 where o0: "transactions w j = Some o0" "reservedIDs oj = reservedIDs o0"
      by blast
    from ao [OF 2] obtain c0 where c0: "c0 \<in> set (allOutputs w)"
      "outputID (snd c) = outputID (snd c0)"
      "generation (snd c) = generation (snd c0) \<or>
       generation (snd c) = spentCounter w' \<or>
       (\<forall>j oj. transactions w' j = Some oj \<longrightarrow> outputID (snd c) \<notin> reservedIDs oj)"
      by blast
    from c0(3) 1 3 have g: "generation (snd c) = generation (snd c0) \<or>
       generation (snd c) = spentCounter w'" by blast
    from m o0 c0(1,2) 3 have "generation (snd c0) = spentCounter w"
      unfolding reservationsMarked_def by metis
    with g sc show "generation (snd c) = spentCounter w'" by auto
  qed
  show "noDoubleReservation w'"
    unfolding noDoubleReservation_def
  proof (intro allI impI)
    fix i j oi oj
    assume a: "i \<noteq> j \<and> transactions w' i = Some oi \<and> transactions w' j = Some oj"
    then obtain pi pj where
      "transactions w i = Some pi" "reservedIDs oi = reservedIDs pi"
      "transactions w j = Some pj" "reservedIDs oj = reservedIDs pj"
      using tr by blast
    with a d show "reservedIDs oi \<inter> reservedIDs oj = {}"
      unfolding noDoubleReservation_def by metis
  qed
qed

lemma inv_addOutput:
  assumes m: "reservationsMarked w" and d: "noDoubleReservation w"
    and f: "AddOutput w tid out = (e, w')"
  shows "reservationsMarked w' \<and> noDoubleReservation w'"
  using AddOutput_cases [OF f]
proof (elim disjE exE conjE)
  assume "w' = w"
  with m d show ?thesis by simp
next
  fix ot
  assume live: "transactions w tid = Some ot"
    and w': "w' = w\<lparr>transactions := (transactions w)
                   (tid \<mapsto> ot\<lparr>transaction :=
                               (transaction ot)\<lparr>Outputs := Outputs (transaction ot) @ [out]\<rparr>\<rparr>)\<rparr>"
  show ?thesis
  proof (rule inv_frame [OF m d])
    show "spentCounter w' = spentCounter w" by (simp add: w')
    show "\<exists>o0. transactions w j = Some o0 \<and> reservedIDs oj = reservedIDs o0"
      if "transactions w' j = Some oj" for j oj
      using that live by (cases "j = tid") (auto simp: w')
    show "\<exists>c0 \<in> set (allOutputs w). outputID (snd c) = outputID (snd c0) \<and>
                  (generation (snd c) = generation (snd c0) \<or>
                   generation (snd c) = spentCounter w' \<or>
                   (\<forall>j oj. transactions w' j = Some oj \<longrightarrow> outputID (snd c) \<notin> reservedIDs oj))"
      if "c \<in> set (allOutputs w')" for c
      using that by (auto simp: w')
  qed
qed

lemma inv_addMinerFee:
  assumes m: "reservationsMarked w" and d: "noDoubleReservation w"
    and f: "AddMinerFee w tid fee = (e, w')"
  shows "reservationsMarked w' \<and> noDoubleReservation w'"
  using AddMinerFee_cases [OF f]
proof (elim disjE exE conjE)
  assume "w' = w"
  with m d show ?thesis by simp
next
  fix ot
  assume live: "transactions w tid = Some ot"
    and w': "w' = w\<lparr>transactions := (transactions w)
                   (tid \<mapsto> ot\<lparr>transaction :=
                               (transaction ot)\<lparr>MinerFees := MinerFees (transaction ot) @ [fee]\<rparr>\<rparr>)\<rparr>"
  show ?thesis
  proof (rule inv_frame [OF m d])
    show "spentCounter w' = spentCounter w" by (simp add: w')
    show "\<exists>o0. transactions w j = Some o0 \<and> reservedIDs oj = reservedIDs o0"
      if "transactions w' j = Some oj" for j oj
      using that live by (cases "j = tid") (auto simp: w')
    show "\<exists>c0 \<in> set (allOutputs w). outputID (snd c) = outputID (snd c0) \<and>
                  (generation (snd c) = generation (snd c0) \<or>
                   generation (snd c) = spentCounter w' \<or>
                   (\<forall>j oj. transactions w' j = Some oj \<longrightarrow> outputID (snd c) \<notin> reservedIDs oj))"
      if "c \<in> set (allOutputs w')" for c
      using that by (auto simp: w')
  qed
qed

lemma inv_sign:
  assumes m: "reservationsMarked w" and d: "noDoubleReservation w"
    and f: "SignTransaction sg w tid finalize = (t, e, w')"
  shows "reservationsMarked w' \<and> noDoubleReservation w'"
  using SignTransaction_cases [OF f]
proof (elim disjE exE conjE)
  assume "w' = w"
  with m d show ?thesis by simp
next
  fix ot
  assume live: "transactions w tid = Some ot"
    and w': "w' = (if finalize
                  then (filterOutputs (\<lambda>out. outputID out \<notin> reservedIDs ot) w)
                         \<lparr>transactions := (transactions w)(tid := None)\<rparr>
                  else w)"
  show ?thesis
  proof (cases finalize)
    case False
    with w' m d show ?thesis by simp
  next
    case True
    with w' have w'': "w' = (filterOutputs (\<lambda>out. outputID out \<notin> reservedIDs ot) w)
                         \<lparr>transactions := (transactions w)(tid := None)\<rparr>" by simp
    show ?thesis
    proof (rule inv_frame [OF m d])
      show "spentCounter w' = spentCounter w" by (simp add: w'')
      show "\<exists>o0. transactions w j = Some o0 \<and> reservedIDs oj = reservedIDs o0"
        if "transactions w' j = Some oj" for j oj
        using that by (cases "j = tid") (auto simp: w'')
      show "\<exists>c0 \<in> set (allOutputs w). outputID (snd c) = outputID (snd c0) \<and>
                  (generation (snd c) = generation (snd c0) \<or>
                   generation (snd c) = spentCounter w' \<or>
                   (\<forall>j oj. transactions w' j = Some oj \<longrightarrow> outputID (snd c) \<notin> reservedIDs oj))"
        if "c \<in> set (allOutputs w')" for c
        using that by (auto simp: w'' allOutputs_filterOutputs)
    qed
  qed
qed

lemma inv_abort:
  assumes m: "reservationsMarked w" and d: "noDoubleReservation w"
    and f: "AbortTransaction w tid = (e, w')"
  shows "reservationsMarked w' \<and> noDoubleReservation w'"
  using AbortTransaction_cases [OF f]
proof (elim disjE exE conjE)
  assume "w' = w"
  with m d show ?thesis by simp
next
  fix ot
  assume live: "transactions w tid = Some ot"
    and w': "w' = (mapOutputs (\<lambda>out. if outputID out \<in> reservedIDs ot
                                    then out\<lparr>generation := 0\<rparr> else out) w)
                   \<lparr>transactions := (transactions w)(tid := None)\<rparr>"
  show ?thesis
  proof (rule inv_frame [OF m d])
    show "spentCounter w' = spentCounter w" by (simp add: w')
    show "\<exists>o0. transactions w j = Some o0 \<and> reservedIDs oj = reservedIDs o0"
      if "transactions w' j = Some oj" for j oj
      using that by (cases "j = tid") (auto simp: w')
    show "\<exists>c0 \<in> set (allOutputs w). outputID (snd c) = outputID (snd c0) \<and>
                  (generation (snd c) = generation (snd c0) \<or>
                   generation (snd c) = spentCounter w' \<or>
                   (\<forall>j oj. transactions w' j = Some oj \<longrightarrow> outputID (snd c) \<notin> reservedIDs oj))"
      if c: "c \<in> set (allOutputs w')" for c
    proof -
      from c obtain c0 where c0: "c0 \<in> set (allOutputs w)"
        "c = apsnd (\<lambda>out. if outputID out \<in> reservedIDs ot then out\<lparr>generation := 0\<rparr> else out) c0"
        by (auto simp: w' allOutputs_mapOutputs)
      show ?thesis
      proof (cases "outputID (snd c0) \<in> reservedIDs ot")
        case False
        with c0 show ?thesis by (intro bexI [of _ c0]) auto
      next
        case True
        have "outputID (snd c) \<notin> reservedIDs oj" if "transactions w' j = Some oj" for j oj
        proof -
          from that have "j \<noteq> tid" "transactions w j = Some oj"
            by (auto simp: w' split: if_splits)
          with d live have "reservedIDs ot \<inter> reservedIDs oj = {}"
            unfolding noDoubleReservation_def by metis
          with True c0(2) show ?thesis by auto
        qed
        with c0 show ?thesis by (intro bexI [of _ c0]) auto
      qed
    qed
  qed
qed

lemma inv_builderStep:
  assumes "reservationsMarked w" "noDoubleReservation w"
  shows "reservationsMarked (builderStep sg w b) \<and> noDoubleReservation (builderStep sg w b)"
proof (cases b)
  case (Register t)
  with inv_register [OF assms] show ?thesis by simp
next
  case (Fund h tid amount)
  with inv_fund [OF assms, of h tid amount] show ?thesis by (simp add: prod_eq_iff)
next
  case (AddOutputOp tid out)
  with inv_addOutput [OF assms, of tid out] show ?thesis by (simp add: prod_eq_iff)
next
  case (AddMinerFeeOp tid fee)
  with inv_addMinerFee [OF assms, of tid fee] show ?thesis by (simp add: prod_eq_iff)
next
  case (Sign tid finalize)
  with inv_sign [OF assms, of sg tid finalize] show ?thesis by (simp add: prod_eq_iff)
next
  case (Abort tid)
  with inv_abort [OF assms, of tid] show ?thesis by (simp add: prod_eq_iff)
qed

lemma inv_builderSteps:
  "reservationsMarked w \<Longrightarrow> noDoubleReservation w \<Longrightarrow>
   reservationsMarked (foldl (builderStep sg) w ops) \<and>
   noDoubleReservation (foldl (builderStep sg) w ops)"
proof (induction ops arbitrary: w)
  case Nil
  then show ?case by simp
next
  case (Cons b ops)
  from inv_builderStep [OF Cons.prems, of sg b] Cons.IH [of "builderStep sg w b"]
  show ?case by simp
qed

lemma inv_empty_registry:
  "transactions w = Map.empty \<Longrightarrow> reservationsMarked w \<and> noDoubleReservation w"
  by (simp add: reservationsMarked_def noDoubleReservation_def)

lemma inv_mark:
  assumes m: "reservationsMarked w" and d: "noDoubleReservation w"
  shows "reservationsMarked (markProvisionallySpent w x) \<and>
         noDoubleReservation (markProvisionallySpent w x)"
proof (rule inv_frame [OF m d])
  show "spentCounter (markProvisionallySpent w x) = spentCounter w"
    by (simp add: markProvisionallySpent_markAll)
  show "\<exists>o0. transactions w j = Some o0 \<and> reservedIDs oj = reservedIDs o0"
    if "transactions (markProvisionallySpent w x) j = Some oj" for j oj
    using that by (simp add: markProvisionallySpent_markAll)
  show "\<exists>c0 \<in> set (allOutputs w). outputID (snd c) = outputID (snd c0) \<and>
          (generation (snd c) = generation (snd c0) \<or>
           generation (snd c) = spentCounter (markProvisionallySpent w x) \<or>
           (\<forall>j oj. transactions (markProvisionallySpent w x) j = Some oj \<longrightarrow>
              outputID (snd c) \<notin> reservedIDs oj))"
    if "c \<in> set (allOutputs (markProvisionallySpent w x))" for c
  proof -
    from that obtain c0 where c0: "c0 \<in> set (allOutputs w)"
      "c = apsnd (\<lambda>out. if outputID out \<in> {x} then out\<lparr>generation := spentCounter w\<rparr> else out) c0"
      by (auto simp: markProvisionallySpent_markAll allOutputs_markAll)
    then show ?thesis
      by (intro bexI [of _ c0]) (auto simp: markProvisionallySpent_markAll)
  qed
qed

lemma inv_reset_idle:
  assumes "\<forall>tid ot. transactions w tid = Some ot \<longrightarrow> reservedOutputs ot = []"
  shows "reservationsMarked (resetGeneration w) \<and> noDoubleReservation (resetGeneration w)"
  using assms
  by (auto simp: reservationsMarked_def noDoubleReservation_def resetGeneration_def
      reservedIDs_def)

lemma inv_run:
  "reservationsMarked w \<Longrightarrow> noDoubleReservation w \<Longrightarrow> resetsWhileIdle sg w ops \<Longrightarrow>
   reservationsMarked (run sg w ops) \<and> noDoubleReservation (run sg w ops)"
proof (induction ops arbitrary: w)
  case Nil
  then show ?case by (simp add: run_def)
next
  case (Cons x ops)
  have step: "reservationsMarked (walletStep sg w x) \<and> noDoubleReservation (walletStep sg w x)"
  proof (cases x)
    case (Builder b)
    with inv_builderStep [OF Cons.prems(1,2), of sg b] show ?thesis by simp
  next
    case (Mark y)
    with inv_mark [OF Cons.prems(1,2), of y] show ?thesis by simp
  next
    case Reset
    with Cons.prems(3) inv_reset_idle [of w] show ?thesis by simp
  qed
  from Cons.prems(3) have "resetsWhileIdle sg (walletStep sg w x) ops" by simp
  with step Cons.IH [of "walletStep sg w x"] show ?case by (simp add: run_def)
qed

lemma resetsWhileIdle_no_reset: "Reset \<notin> set ops \<Longrightarrow> resetsWhileIdle sg w ops"
  by (induction ops arbitrary: w) auto

subsection \<open>The steps of SpendCoins\<close>

lemma signReserved_keeps:
  "signReserved sg draft addrs rs t = Inr t' \<Longrightarrow>
   Outputs t' = Outputs t \<and> MinerFees t' = MinerFees t \<and>
   map InputID (Inputs t') = map InputID (Inputs t)"
proof (induction rs arbitrary: t)
  case Nil
  then show ?case by simp
next
  case (Cons c rs)
  from Cons.prems obtain sa i s where
    step: "signReserved sg draft addrs rs
             (t\<lparr>Inputs := (Inputs t)[i := (Inputs t ! i)\<lparr>InputSignature := s\<rparr>]\<rparr>) = Inr t'"
    by (auto split: option.splits sum.splits)
  have "map InputID ((Inputs t)[i := (Inputs t ! i)\<lparr>InputSignature := s\<rparr>]) = map InputID (Inputs t)"
  proof (cases "i < length (Inputs t)")
    case True
    then have "InputID (Inputs t ! i) = map InputID (Inputs t) ! i" by simp
    then show ?thesis by (simp add: map_update del: nth_map)
  next
    case False
    then have "length (Inputs t) \<le> i" by (simp add: not_less)
    then have "(Inputs t)[i := (Inputs t ! i)\<lparr>InputSignature := s\<rparr>] = Inputs t"
      by (rule list_update_beyond)
    then show ?thesis by (rule arg_cong)
  qed
  with Cons.IH [OF step] show ?case by simp
qed

lemma FundTransaction_fails_unchanged:
  "FundTransaction h w tid amount = (Some e, w') \<Longrightarrow> w' = w"
  using FundTransaction_cases by fastforce

lemma SpendCoins_fund_fails:
  assumes "FundTransaction h (snd (snd (RegisterTransaction w zeroTransaction)))
             (fst (RegisterTransaction w zeroTransaction)) (amount + 10) = (Some e, w2)"
  shows "SpendCoins sg accept h w amount dest =
           (zeroTransaction, Some e, snd (snd (RegisterTransaction w zeroTransaction)))"
  using assms FundTransaction_fails_unchanged [OF assms]
  by (simp add: SpendCoins_def RegisterTransaction_result Let_def)

lemma SpendCoins_funded:
  assumes f: "FundTransaction h (snd (snd (RegisterTransaction w zeroTransaction)))
             (fst (RegisterTransaction w zeroTransaction)) (amount + 10) = (None, w2)"
  shows "\<exists>sel w4.
      set sel \<subseteq> set (unspentOutputs h (snd (snd (RegisterTransaction w zeroTransaction)))) \<and>
      transactions w4 (fst (RegisterTransaction w zeroTransaction)) =
        Some \<lparr>transaction =
                \<lparr>Inputs = map (newInput (snd (snd (RegisterTransaction w zeroTransaction)))) sel,
                 MinerFees = [10],
                 Outputs = [\<lparr>Value = amount, SpendHash = dest\<rparr>]\<rparr>,
              reservedOutputs = sel, txState = Funded\<rparr> \<and>
      (\<exists>ot. transactions w2 (fst (RegisterTransaction w zeroTransaction)) = Some ot \<and>
            reservedOutputs ot = sel) \<and>
      addresses w4 = addresses w2 \<and> spentCounter w4 = spentCounter w2 \<and>
      w4 = snd (AddOutput (snd (AddMinerFee w2 (fst (RegisterTransaction w zeroTransaction)) 10))
                  (fst (RegisterTransaction w zeroTransaction))
                  \<lparr>Value = amount, SpendHash = dest\<rparr>) \<and>
      (\<forall>accept. SpendCoins sg accept h w amount dest =
        (case SignTransaction sg w4 (fst (RegisterTransaction w zeroTransaction)) True of
           (t', Some e, w5) \<Rightarrow> (t', Some e, w5)
         | (t', None, w5) \<Rightarrow> (t', accept t', w5)))"
proof -
  let ?tid = "Itoa (transactionCounter w + 1)"
  let ?new = "\<lparr>transaction = zeroTransaction, reservedOutputs = [], txState = Empty\<rparr>"
  let ?w1 = "w\<lparr>transactionCounter := transactionCounter w + 1,
               transactions := (transactions w)(?tid \<mapsto> ?new)\<rparr>"
  have r: "RegisterTransaction w zeroTransaction = (?tid, None, ?w1)"
    by (rule RegisterTransaction_result)
  from f have f1: "FundTransaction h ?w1 ?tid (amount + 10) = (None, w2)" by (simp add: r)
  from FundTransaction_cases [OF f1] obtain ot sel where
    live: "transactions ?w1 ?tid = Some ot" and sel: "set sel \<subseteq> set (unspentOutputs h ?w1)"
    and w2: "w2 = (markAll ?w1 ((outputID \<circ> snd) ` set sel))
                   \<lparr>transactions := (transactions ?w1)
                      (?tid \<mapsto> ot\<lparr>transaction :=
                                  (transaction ot)\<lparr>Inputs :=
                                     Inputs (transaction ot) @ map (newInput ?w1) sel\<rparr>,
                                reservedOutputs := reservedOutputs ot @ sel,
                                txState := Funded\<rparr>)\<rparr>"
    by auto
  from live have ot: "ot = ?new" by simp
  let ?ot2 = "\<lparr>transaction = \<lparr>Inputs = map (newInput ?w1) sel, MinerFees = [], Outputs = []\<rparr>,
               reservedOutputs = sel, txState = Funded\<rparr>"
  have t2: "transactions w2 ?tid = Some ?ot2"
    by (simp add: w2 ot zeroTransaction_def)
  let ?ot3 = "\<lparr>transaction = \<lparr>Inputs = map (newInput ?w1) sel, MinerFees = [10], Outputs = []\<rparr>,
               reservedOutputs = sel, txState = Funded\<rparr>"
  let ?w3 = "w2\<lparr>transactions := (transactions w2)(?tid \<mapsto> ?ot3)\<rparr>"
  have a3: "AddMinerFee w2 ?tid 10 = (None, ?w3)"
    by (simp add: AddMinerFee_def t2)
  let ?ot4 = "\<lparr>transaction = \<lparr>Inputs = map (newInput ?w1) sel, MinerFees = [10],
                                Outputs = [\<lparr>Value = amount, SpendHash = dest\<rparr>]\<rparr>,
               reservedOutputs = sel, txState = Funded\<rparr>"
  let ?w4 = "?w3\<lparr>transactions := (transactions ?w3)(?tid \<mapsto> ?ot4)\<rparr>"
  have a4: "AddOutput ?w3 ?tid \<lparr>Value = amount, SpendHash = dest\<rparr> = (None, ?w4)"
    by (simp add: AddOutput_def)
  have sp: "SpendCoins sg accept h w amount dest =
        (case SignTransaction sg ?w4 ?tid True of
           (t', Some e, w5) \<Rightarrow> (t', Some e, w5)
         | (t', None, w5) \<Rightarrow> (t', accept t', w5))" for accept
    unfolding SpendCoins_def Let_def r using f1 a3 a4 by simp
  show ?thesis
    unfolding r fst_conv snd_conv
  proof (intro exI conjI allI)
    show "set sel \<subseteq> set (unspentOutputs h ?w1)" by (rule sel)
    show "transactions ?w4 ?tid = Some ?ot4" by simp
    show "transactions w2 ?tid = Some ?ot2" by (rule t2)
    show "reservedOutputs ?ot2 = sel" by simp
    show "addresses ?w4 = addresses w2" by simp
    show "spentCounter ?w4 = spentCounter w2" by simp
    show "?w4 = snd (AddOutput (snd (AddMinerFee w2 ?tid 10)) ?tid
                  \<lparr>Value = amount, SpendHash = dest\<rparr>)"
      by (simp only: a3 a4 snd_conv)
    show "SpendCoins sg accept h w amount dest =
        (case SignTransaction sg ?w4 ?tid True of
           (t', Some e, w5) \<Rightarrow> (t', Some e, w5)
         | (t', None, w5) \<Rightarrow> (t', accept t', w5))" for accept by (rule sp)
  qed
qed

lemma SpendCoins_signed:
  assumes "SpendCoins sg accept0 h w amount dest = (t, None, w')"
  obtains w2 sel w4 ot where
    "FundTransaction h (snd (snd (RegisterTransaction w zeroTransaction)))
        (fst (RegisterTransaction w zeroTransaction)) (amount + 10) = (None, w2)"
    "transactions w2 (fst (RegisterTransaction w zeroTransaction)) = Some ot"
    "reservedOutputs ot = sel"
    "Outputs t = [\<lparr>Value = amount, SpendHash = dest\<rparr>]"
    "MinerFees t = [10]"
    "map InputID (Inputs t) = map (outputID \<circ> snd) sel"
    "w' = (filterOutputs (\<lambda>out. outputID out \<notin> (outputID \<circ> snd) ` set sel) w4)
             \<lparr>transactions := (transactions w4)(fst (RegisterTransaction w zeroTransaction) := None)\<rparr>"
    "\<And>accept. SpendCoins sg accept h w amount dest = (t, accept t, w')"
proof -
  let ?tid = "fst (RegisterTransaction w zeroTransaction)"
  let ?w1 = "snd (snd (RegisterTransaction w zeroTransaction))"
  obtain e2 w2 where f: "FundTransaction h ?w1 ?tid (amount + 10) = (e2, w2)"
    by (metis surj_pair)
  have "e2 = None"
  proof (rule ccontr)
    assume "e2 \<noteq> None"
    then obtain e where "e2 = Some e" by blast
    with f SpendCoins_fund_fails [of h w amount e w2 sg accept0 dest] assms
    show False by simp
  qed
  with f have f': "FundTransaction h ?w1 ?tid (amount + 10) = (None, w2)" by simp
  from SpendCoins_funded [OF f', of dest sg] obtain sel w4 where
    t4: "transactions w4 ?tid =
        Some \<lparr>transaction =
                \<lparr>Inputs = map (newInput ?w1) sel, MinerFees = [10],
                 Outputs = [\<lparr>Value = amount, SpendHash = dest\<rparr>]\<rparr>,
              reservedOutputs = sel, txState = Funded\<rparr>"
    and r2: "\<exists>ot. transactions w2 ?tid = Some ot \<and> reservedOutputs ot = sel"
    and sp: "\<And>accept. SpendCoins sg accept h w amount dest =
        (case SignTransaction sg w4 ?tid True of
           (t', Some e, w5) \<Rightarrow> (t', Some e, w5)
         | (t', None, w5) \<Rightarrow> (t', accept t', w5))"
    by blast
  obtain t5 e5 w5 where s: "SignTransaction sg w4 ?tid True = (t5, e5, w5)"
    by (metis prod_cases3)
  from sp [of accept0] s assms have e5: "e5 = None" and tt: "t5 = t" and ww: "w5 = w'"
    by (auto split: option.splits)
  from SignTransaction_cases [OF s] e5 t4 tt ww have
    sr: "signReserved sg
           \<lparr>Inputs = map (newInput ?w1) sel, MinerFees = [10],
            Outputs = [\<lparr>Value = amount, SpendHash = dest\<rparr>]\<rparr>
           (addresses w4) sel
           \<lparr>Inputs = map (newInput ?w1) sel, MinerFees = [10],
            Outputs = [\<lparr>Value = amount, SpendHash = dest\<rparr>]\<rparr> = Inr t"
    and w': "w' = (filterOutputs (\<lambda>out. outputID out \<notin> (outputID \<circ> snd) ` set sel) w4)
             \<lparr>transactions := (transactions w4)(?tid := None)\<rparr>"
    by (auto simp: reservedIDs_def)
  from signReserved_keeps [OF sr] have k: "Outputs t = [\<lparr>Value = amount, SpendHash = dest\<rparr>]"
    "MinerFees t = [10]" "map InputID (Inputs t) = map (outputID \<circ> snd) sel"
    by (simp_all add: newInput_def comp_def)
  have all: "SpendCoins sg accept h w amount dest = (t, accept t, w')" for accept
    using sp [of accept] s e5 tt ww by simp
  from r2 obtain ot where
    "transactions w2 ?tid = Some ot" "reservedOutputs ot = sel" by blast
  with f' k w' all show ?thesis by (intro that)
qed

lemma unspentOutputs_allOutputs: "set (unspentOutputs h w) \<subseteq> set (allOutputs w)"
  using unspentOutputs_subset by blast

section \<open>Claims\<close>

text \<open>
  Claim C1, as amended. In every wallet state reached from a wallet whose registry is
  empty (as \<^verbatim>\<open>New\<close> makes it) by register, fund, addOutput, addMinerFee, sign,
  abort and markProvisionallySpent steps, and by resetGeneration steps taken while no
  open transaction holds a reservation, any two distinct ids of the registry have
  disjoint sets of reserved outputs. As stated, for every reachable state, the claim
  fails: a resetGeneration while a reservation is live makes the reserved output
  selectable again, and the next fund reserves it for a second transaction.
\<close>

theorem no_double_reservation:
  "transactions w0 = Map.empty \<Longrightarrow> resetsWhileIdle sg w0 ops \<Longrightarrow>
   noDoubleReservation (run sg w0 ops)"
  using inv_empty_registry [of w0] inv_run [of w0 sg ops] by blast

theorem no_double_reservation_witness:
  "transactions exampleWallet = Map.empty \<and>
   resetsWhileIdle exampleSigner exampleWallet fundingRun \<and>
   noDoubleReservation (run exampleSigner exampleWallet fundingRun) \<and>
   reservedUnder (run exampleSigner exampleWallet fundingRun) ''1'' = Some [1] \<and>
   reservedUnder (run exampleSigner exampleWallet fundingRun) ''2'' = Some [2]"
proof -
  have e: "transactions exampleWallet = Map.empty"
    by (simp add: exampleWallet_def newWallet_def)
  have i: "resetsWhileIdle exampleSigner exampleWallet fundingRun"
    using e by (simp add: fundingRun_def resetsWhileIdle_no_reset)
  have r1: "reservedUnder (run exampleSigner exampleWallet fundingRun) ''1'' = Some [1]"
    by code_simp
  have r2: "reservedUnder (run exampleSigner exampleWallet fundingRun) ''2'' = Some [2]"
    by code_simp
  have n: "noDoubleReservation (run exampleSigner exampleWallet fundingRun)"
    using e i by (rule no_double_reservation)
  show ?thesis
    by (intro conjI e i n r1 r2)
qed

theorem double_reservation_after_reset:
  "\<not> noDoubleReservation (run exampleSigner exampleWallet resettingRun)"
proof
  assume n: "noDoubleReservation (run exampleSigner exampleWallet resettingRun)"
  have r1: "reservedUnder (run exampleSigner exampleWallet resettingRun) ''1'' = Some [1]"
    by code_simp
  have r2: "reservedUnder (run exampleSigner exampleWallet resettingRun) ''2'' = Some [1]"
    by code_simp
  from r1 obtain o1 where o1: "transactions (run exampleSigner exampleWallet resettingRun) ''1'' = Some o1"
    "reservedIDs o1 = {1}"
    unfolding reservedUnder_def reservedIDs_def by (cases "transactions (run exampleSigner exampleWallet resettingRun) ''1''") auto
  from r2 obtain o2 where o2: "transactions (run exampleSigner exampleWallet resettingRun) ''2'' = Some o2"
    "reservedIDs o2 = {1}"
    unfolding reservedUnder_def reservedIDs_def by (cases "transactions (run exampleSigner exampleWallet resettingRun) ''2''") auto
  have ne: "''1'' \<noteq> ''2''" by simp
  from n [unfolded noDoubleReservation_def, rule_format, of "''1''" "''2''" o1 o2] ne o1 o2
  show False by simp
qed

text \<open>
  Claim C10. When the consensus set knows the server's current block, the handler does
  not panic, in debug mode or not: it returns with exactly one response appended to the
  writer, the JSON object holding the blockchain height, the id of the current block
  and that block's child target. A request with method GET (or none) is dispatched to it.
\<close>

theorem consensus_get_writes_one_response:
  assumes "snd (ChildTarget (cs srv) (ID (currentBlock srv)))"
  shows "consensusHandlerGET ID DEBUG srv w req =
           Inr (w @ [JSON \<lparr>Height = toBlockHeight (blockchainHeight srv),
                           CurrentBlock = ID (currentBlock srv),
                           Target = fst (ChildTarget (cs srv) (ID (currentBlock srv)))\<rparr>]) \<and>
         (Method req = '''' \<or> Method req = ''GET'' \<longrightarrow>
            consensusHandler ID DEBUG srv w req = consensusHandlerGET ID DEBUG srv w req) \<and>
         (0 \<le> blockchainHeight srv \<and> blockchainHeight srv < 2 ^ 64 \<longrightarrow>
            int (toBlockHeight (blockchainHeight srv)) = blockchainHeight srv)"
  using assms
  by (auto simp: consensusHandlerGET_def consensusHandler_def writeJSON_def toBlockHeight_def
      split: prod.splits)

theorem consensus_get_writes_one_response_witness:
  "snd (ChildTarget (cs exampleServer) (exampleID (currentBlock exampleServer))) \<and>
   Method exampleRequest = ''GET'' \<and>
   0 \<le> blockchainHeight exampleServer \<and> blockchainHeight exampleServer < 2 ^ 64 \<and>
   consensusHandler exampleID True exampleServer [] exampleRequest =
     Inr [JSON \<lparr>Height = 12, CurrentBlock = 1003, Target = 77\<rparr>]"
proof -
  have h: "snd (ChildTarget (cs exampleServer) (exampleID (currentBlock exampleServer)))"
    by (simp add: exampleServer_def exampleID_def)
  have m: "Method exampleRequest = ''GET''" by (simp add: exampleRequest_def)
  have b: "0 \<le> blockchainHeight exampleServer \<and> blockchainHeight exampleServer < 2 ^ 64"
    by (simp add: exampleServer_def)
  from consensus_get_writes_one_response
         [of exampleServer exampleID True "[]" exampleRequest] h m b
  have "consensusHandler exampleID True exampleServer [] exampleRequest =
     Inr [JSON \<lparr>Height = toBlockHeight (blockchainHeight exampleServer),
                           CurrentBlock = exampleID (currentBlock exampleServer),
                           Target = fst (ChildTarget (cs exampleServer) (exampleID (currentBlock exampleServer)))\<rparr>]"
    and "int (toBlockHeight (blockchainHeight exampleServer)) = blockchainHeight exampleServer"
    by simp_all
  then have "consensusHandler exampleID True exampleServer [] exampleRequest =
     Inr [JSON \<lparr>Height = 12, CurrentBlock = 1003, Target = 77\<rparr>]"
    by (simp add: exampleServer_def exampleID_def)
  with h m b show ?thesis by blast
qed


text \<open>
  Claim C5. Whenever \<^verbatim>\<open>SpendCoins\<close> returns without error, the returned transaction
  has exactly one output, of the given amount to the given destination, and exactly one
  miner fee, of value 10; the funding call that succeeded asked for the amount plus 10,
  and the inputs are the outputs that this call reserved. No change output is added,
  whatever the reserved inputs are worth.
\<close>

theorem SpendCoins_one_output_one_fee:
  assumes "SpendCoins sg accept h w amount dest = (t, None, w')"
  shows "Outputs t = [\<lparr>Value = amount, SpendHash = dest\<rparr>] \<and> MinerFees t = [10] \<and>
         (\<exists>w2 ot.
            FundTransaction h (snd (snd (RegisterTransaction w zeroTransaction)))
              (fst (RegisterTransaction w zeroTransaction)) (amount + 10) = (None, w2) \<and>
            transactions w2 (fst (RegisterTransaction w zeroTransaction)) = Some ot \<and>
            map InputID (Inputs t) = map (outputID \<circ> snd) (reservedOutputs ot))"
proof (rule SpendCoins_signed [OF assms])
  fix w2 sel w4 ot
  assume "FundTransaction h (snd (snd (RegisterTransaction w zeroTransaction)))
        (fst (RegisterTransaction w zeroTransaction)) (amount + 10) = (None, w2)"
    "transactions w2 (fst (RegisterTransaction w zeroTransaction)) = Some ot"
    "reservedOutputs ot = sel"
    "Outputs t = [\<lparr>Value = amount, SpendHash = dest\<rparr>]"
    "MinerFees t = [10]"
    "map InputID (Inputs t) = map (outputID \<circ> snd) sel"
  then show ?thesis by blast
qed

theorem SpendCoins_one_output_one_fee_witness:
  "acceptedSpend = (fst acceptedSpend, None, snd (snd acceptedSpend)) \<and>
   Outputs (fst acceptedSpend) = [\<lparr>Value = 40, SpendHash = 9\<rparr>] \<and>
   MinerFees (fst acceptedSpend) = [10] \<and>
   map InputID (Inputs (fst acceptedSpend)) = [1] \<and>
   map (outputValue \<circ> snd) (unspentOutputs 0 exampleWallet) = [100, 50]"
proof -
  have n: "fst (snd acceptedSpend) = None" by code_simp
  then have h: "acceptedSpend = (fst acceptedSpend, None, snd (snd acceptedSpend))"
    by (simp add: prod_eq_iff)
  from SpendCoins_one_output_one_fee [OF h [unfolded acceptedSpend_def]]
  have "Outputs (fst acceptedSpend) = [\<lparr>Value = 40, SpendHash = 9\<rparr>]"
    and "MinerFees (fst acceptedSpend) = [10]"
    by (simp_all add: acceptedSpend_def)
  moreover have "map InputID (Inputs (fst acceptedSpend)) = [1]" by code_simp
  moreover have "map (outputValue \<circ> snd) (unspentOutputs 0 exampleWallet) = [100, 50]" by code_simp
  ultimately show ?thesis using h by blast
qed

text \<open>
  Claim C2, as amended. When the builder steps of \<^verbatim>\<open>SpendCoins\<close> succeed and
  \<^verbatim>\<open>AcceptTransaction\<close> rejects the signed transaction, \<^verbatim>\<open>SpendCoins\<close> returns the
  signed transaction with the ledger's error and does nothing more: the wallet is the one
  an accepted submission leaves. The open transaction has left the registry, so it
  cannot be aborted, and the outputs spent by the transaction's inputs are not released:
  the address book no longer holds them, so they are in no unspent set. As stated,
  with the outputs released and the balance as before the call, the claim fails.
\<close>

theorem SpendCoins_rejected_keeps_reservations:
  assumes "SpendCoins sg acceptingLedger h w amount dest = (t, None, w')"
    and "accept t = Some e"
  shows "SpendCoins sg accept h w amount dest = (t, Some e, w') \<and>
         transactions w' (fst (RegisterTransaction w zeroTransaction)) = None \<and>
         (\<forall>c \<in> set (allOutputs w'). outputID (snd c) \<notin> InputID ` set (Inputs t)) \<and>
         (\<forall>c \<in> set (unspentOutputs h' w'). outputID (snd c) \<notin> InputID ` set (Inputs t))"
proof (rule SpendCoins_signed [OF assms(1)])
  fix w2 sel w4 ot
  assume ids: "map InputID (Inputs t) = map (outputID \<circ> snd) sel"
    and w': "w' = (filterOutputs (\<lambda>out. outputID out \<notin> (outputID \<circ> snd) ` set sel) w4)
             \<lparr>transactions := (transactions w4)(fst (RegisterTransaction w zeroTransaction) := None)\<rparr>"
    and all: "\<And>accept. SpendCoins sg accept h w amount dest = (t, accept t, w')"
  from ids have "set (map InputID (Inputs t)) = set (map (outputID \<circ> snd) sel)" by simp
  then have s: "InputID ` set (Inputs t) = (outputID \<circ> snd) ` set sel" by simp
  have a: "\<forall>c \<in> set (allOutputs w'). outputID (snd c) \<notin> InputID ` set (Inputs t)"
    unfolding s by (simp add: w' allOutputs_filterOutputs)
  with unspentOutputs_allOutputs [of h' w']
  have u: "\<forall>c \<in> set (unspentOutputs h' w'). outputID (snd c) \<notin> InputID ` set (Inputs t)"
    by blast
  have "transactions w' (fst (RegisterTransaction w zeroTransaction)) = None"
    by (simp add: w')
  with all [of accept] assms(2) a u show ?thesis by simp
qed

theorem SpendCoins_rejected_keeps_reservations_witness:
  "acceptedSpend = (fst acceptedSpend, None, snd (snd acceptedSpend)) \<and>
   rejectingLedger (fst acceptedSpend) = Some (LedgerRejected ''conflicting spend'') \<and>
   rejectedSpend =
     (fst acceptedSpend, Some (LedgerRejected ''conflicting spend''), snd (snd acceptedSpend)) \<and>
   map InputID (Inputs (fst acceptedSpend)) = [1]"
proof -
  have n: "fst (snd acceptedSpend) = None" by code_simp
  then have h: "acceptedSpend = (fst acceptedSpend, None, snd (snd acceptedSpend))"
    by (simp add: prod_eq_iff)
  have r: "rejectingLedger (fst acceptedSpend) = Some (LedgerRejected ''conflicting spend'')"
    by (simp add: rejectingLedger_def)
  from SpendCoins_rejected_keeps_reservations
         [of exampleSigner 0 exampleWallet 40 9 "fst acceptedSpend" "snd (snd acceptedSpend)"
             rejectingLedger "LedgerRejected ''conflicting spend''"]
       h [unfolded acceptedSpend_def] r
  have "rejectedSpend =
     (fst acceptedSpend, Some (LedgerRejected ''conflicting spend''), snd (snd acceptedSpend))"
    by (simp add: rejectedSpend_def acceptedSpend_def)
  moreover have "map InputID (Inputs (fst acceptedSpend)) = [1]" by code_simp
  ultimately show ?thesis using h r by blast
qed

theorem SpendCoins_rejected_not_released:
  "fst (snd rejectedSpend) = Some (LedgerRejected ''conflicting spend'') \<and>
   map (outputID \<circ> snd) (unspentOutputs 0 exampleWallet) = [1, 2] \<and>
   map (outputID \<circ> snd) (unspentOutputs 0 (snd (snd rejectedSpend))) = [2] \<and>
   Balance 0 exampleWallet False = 150 \<and> Balance 0 (snd (snd rejectedSpend)) False = 50 \<and>
   Balance 0 exampleWallet True = 150 \<and> Balance 0 (snd (snd rejectedSpend)) True = 50"
  by code_simp

end
